theory Spec2Isabelle
  imports Main "HOL-Library.Sublist"
begin

section \<open>The search box of the Codeforces visualiser\<close>

text \<open>
  The component \<^verbatim>\<open>SearchBox\<close> of \<^verbatim>\<open>src/components/SearchBox.jsx\<close> owns three
  pieces of React state (\<^verbatim>\<open>errorMessage\<close>, \<^verbatim>\<open>showError\<close>, \<^verbatim>\<open>loader\<close>), a reference
  to the current \<^verbatim>\<open>AbortController\<close>, and three setters of its caller
  (\<^verbatim>\<open>setUserInfo\<close>, \<^verbatim>\<open>setUserRatings\<close>, \<^verbatim>\<open>setUserProblems\<close>). Its handler
  \<^verbatim>\<open>handleSearch\<close> is an async function: it runs until its first \<^verbatim>\<open>await\<close>, and
  each later piece runs when the awaited promise settles. The model is a state
  record and one transition per task of the event loop: a form submission, the
  settling of a fetch, the settling of a body read, the expiry of a timer, and
  the passing of time.
\<close>

subsection \<open>Values, errors, responses\<close>

text \<open>A JavaScript error object: its \<^verbatim>\<open>name\<close> and its \<^verbatim>\<open>message\<close>.\<close>

datatype js_error = JsError (err_name: string) (err_message: string)

text \<open>\<^verbatim>\<open>new Error(m)\<close> has the name \<^verbatim>\<open>Error\<close>.\<close>

definition Error :: "string \<Rightarrow> js_error" where
  "Error m = JsError ''Error'' m"

text \<open>
  The rejection of a fetch or of a body read whose signal is aborted: a
  \<^verbatim>\<open>DOMException\<close> named \<^verbatim>\<open>AbortError\<close>. Its message is the engine's; the handler
  looks at the name only.
\<close>

definition AbortError :: js_error where
  "AbortError = JsError ''AbortError'' ''signal is aborted without reason''"

text \<open>
  Reading a property of \<^verbatim>\<open>undefined\<close> (\<^verbatim>\<open>userInfoData.result[0]\<close> when the payload
  has no \<^verbatim>\<open>result\<close>) throws a \<^verbatim>\<open>TypeError\<close>; the message is the engine's (V8's here).
\<close>

definition undefined_index_error :: js_error where
  "undefined_index_error =
     JsError ''TypeError''
       (''Cannot read properties of undefined (reading '' @ [CHR 0x27, CHR ''0'', CHR 0x27] @ '')'')"

text \<open>
  What a setter of the caller holds: \<^verbatim>\<open>null\<close> (set at every submission),
  \<^verbatim>\<open>undefined\<close> (what a missing \<^verbatim>\<open>result\<close> field or \<^verbatim>\<open>[][0]\<close> evaluates to), or a value.
\<close>

datatype 'a slot = Null | Undefined | Val 'a

text \<open>
  The parsed JSON payload, at the shape the API documents: an object whose
  \<^verbatim>\<open>status\<close> and \<^verbatim>\<open>comment\<close> are strings when present and whose \<^verbatim>\<open>result\<close> is an
  array when present. \<open>None\<close> is an absent field (\<^verbatim>\<open>undefined\<close>). The entries of
  the arrays are opaque to the component: a type variable.
\<close>

record 'a payload =
  status :: "string option"
  comment :: "string option"
  result :: "'a list option"

text \<open>
  A \<^verbatim>\<open>Response\<close>: the value of \<^verbatim>\<open>headers.get("content-type")\<close> (\<open>None\<close> for
  \<^verbatim>\<open>null\<close>), and what the promises of \<^verbatim>\<open>text()\<close> and \<^verbatim>\<open>json()\<close> settle to when the
  body is read without the signal being aborted (\<open>Inl\<close> a rejection: a network
  error, or a \<^verbatim>\<open>SyntaxError\<close> of the parser).
\<close>

record 'a response =
  content_type :: "string option"
  text_body :: "js_error + string"
  json_body :: "js_error + 'a payload"

subsection \<open>Strings\<close>

text \<open>\<^verbatim>\<open>s.includes(needle)\<close>: \<open>needle\<close> occurs in \<open>s\<close> as a contiguous run.\<close>

fun str_includes :: "string \<Rightarrow> string \<Rightarrow> bool" where
  "str_includes [] needle = (needle = [])"
| "str_includes (c # cs) needle = (prefix needle (c # cs) \<or> str_includes cs needle)"

text \<open>\<^verbatim>\<open>s.startsWith(p)\<close>.\<close>

definition startsWith :: "string \<Rightarrow> string \<Rightarrow> bool" where
  "startsWith s p = prefix p s"

text \<open>
  \<^verbatim>\<open>s.trim()\<close> removes the white space and the line terminators of ECMAScript
  from both ends. The value of the input field is read here as the bytes of
  its UTF-8 encoding: the white space of one byte is tab, line feed, vertical
  tab, form feed, carriage return and space; the others are the encodings of
  U+00A0, U+1680, U+2000 to U+200A, U+2028, U+2029, U+202F, U+205F, U+3000 and
  U+FEFF.
\<close>

definition is_space :: "char \<Rightarrow> bool" where
  "is_space c = (c \<in> {CHR '' '', CHR 0x09, CHR 0x0A, CHR 0x0B, CHR 0x0C, CHR 0x0D})"

definition wide_spaces :: "string list" where
  "wide_spaces =
     [[CHR 0xC2, CHR 0xA0], [CHR 0xE1, CHR 0x9A, CHR 0x80],
      [CHR 0xE2, CHR 0x80, CHR 0x80], [CHR 0xE2, CHR 0x80, CHR 0x81],
      [CHR 0xE2, CHR 0x80, CHR 0x82], [CHR 0xE2, CHR 0x80, CHR 0x83],
      [CHR 0xE2, CHR 0x80, CHR 0x84], [CHR 0xE2, CHR 0x80, CHR 0x85],
      [CHR 0xE2, CHR 0x80, CHR 0x86], [CHR 0xE2, CHR 0x80, CHR 0x87],
      [CHR 0xE2, CHR 0x80, CHR 0x88], [CHR 0xE2, CHR 0x80, CHR 0x89],
      [CHR 0xE2, CHR 0x80, CHR 0x8A], [CHR 0xE2, CHR 0x80, CHR 0xA8],
      [CHR 0xE2, CHR 0x80, CHR 0xA9], [CHR 0xE2, CHR 0x80, CHR 0xAF],
      [CHR 0xE2, CHR 0x81, CHR 0x9F], [CHR 0xE3, CHR 0x80, CHR 0x80],
      [CHR 0xEF, CHR 0xBB, CHR 0xBF]]"

text \<open>
  Removing white space from the front: \<open>ws\<close> are the encodings of more than one
  byte, as they read from the front.
\<close>

fun strip :: "string list \<Rightarrow> string \<Rightarrow> string" where
  "strip ws [] = []"
| "strip ws (c # cs) =
     (if is_space c then strip ws cs
      else (case find (\<lambda>w. prefix w (c # cs)) ws of
              None \<Rightarrow> c # cs
            | Some w \<Rightarrow> strip ws (drop (length w - 1) cs)))"

text \<open>From the end, the string and the encodings are read backwards.\<close>

definition trim :: "string \<Rightarrow> string" where
  "trim s = rev (strip (map rev wide_spaces) (rev (strip wide_spaces s)))"

subsection \<open>The validator\<close>

text \<open>
  \<^verbatim>\<open>validateResponse\<close> (lines 13 to 26). It awaits one promise, \<^verbatim>\<open>response.text()\<close>
  or \<^verbatim>\<open>response.json()\<close>; the function below is what it does once that promise
  has settled to the value the response carries. \<^verbatim>\<open>text.slice(0, 50)\<close> is
  \<open>take 50\<close>; \<^verbatim>\<open>data.comment || "Unknown API error"\<close> falls back when the comment
  is absent or the empty string.
\<close>

definition non_json_prefix :: string where
  "non_json_prefix = ''API returned non-JSON response: ''"

definition validateResponse :: "'a response \<Rightarrow> js_error + 'a payload" where
  "validateResponse response =
     (let contentType = (case content_type response of None \<Rightarrow> [] | Some h \<Rightarrow> h) in
      if \<not> str_includes contentType ''application/json'' then
        (case text_body response of
           Inl e \<Rightarrow> Inl e
         | Inr txt \<Rightarrow> Inl (Error (non_json_prefix @ take 50 txt @ ''...'')))
      else
        (case json_body response of
           Inl e \<Rightarrow> Inl e
         | Inr data \<Rightarrow>
             if status data \<noteq> Some ''OK'' then
               Inl (Error (case comment data of
                             None \<Rightarrow> ''Unknown API error''
                           | Some c \<Rightarrow> if c = [] then ''Unknown API error'' else c))
             else Inr data))"

subsection \<open>The state\<close>

text \<open>The three calls of a sequence, in the order of the source.\<close>

datatype call = UserInfo | UserRating | UserStatus

text \<open>
  How an invocation of \<^verbatim>\<open>handleSearch\<close> ended: it ran to its last line, or its
  \<^verbatim>\<open>catch\<close> block ran on an error.
\<close>

datatype outcome = Success | Failed js_error

text \<open>
  Where an invocation stands: suspended at \<^verbatim>\<open>await fetch(...)\<close> of a call, with
  the controller whose signal the fetch was given; suspended inside
  \<^verbatim>\<open>validateResponse\<close> at the body read of that call's response; or ended.
\<close>

datatype 'a stage =
    AwaitFetch call nat
  | AwaitBody call nat "'a response"
  | Done outcome

text \<open>
  An invocation with the variables of its closure: \<^verbatim>\<open>searchValue\<close>, \<^verbatim>\<open>API_BASE\<close>
  and \<^verbatim>\<open>timeoutId\<close> (\<open>None\<close> before the line that defines it).
\<close>

record 'a task =
  searchValue :: string
  API_BASE :: "string option"
  timeoutId :: "nat option"
  stage :: "'a stage"

text \<open>The two callbacks given to \<^verbatim>\<open>setTimeout\<close> (lines 51 to 54 and line 96).\<close>

datatype timer_action = AbortCurrent | HideError

record timer =
  due :: nat
  action :: timer_action

text \<open>A call of \<^verbatim>\<open>fetch\<close>: its URL and the controller whose signal it was given.\<close>

record request =
  url :: string
  signal :: nat

text \<open>
  The state between two tasks of the event loop. Controllers are numbered in the
  order of their creation; \<open>controllers s ! c\<close> is the \<^verbatim>\<open>aborted\<close> flag of
  controller \<open>c\<close> and \<open>current s\<close> is \<^verbatim>\<open>abortControllerRef.current\<close>. Invocations of
  \<^verbatim>\<open>handleSearch\<close> are numbered in the order of the submissions. \<open>timers\<close> are the
  pending timers with their identifiers, \<open>requests\<close> the calls of \<^verbatim>\<open>fetch\<close> made
  so far, \<open>uncaught\<close> the errors thrown out of a callback with no handler around
  it, and \<open>now\<close> the clock in milliseconds.
\<close>

record 'a state =
  errorMessage :: string
  showError :: bool
  loader :: bool
  userInfo :: "'a slot"
  userRatings :: "'a list slot"
  userProblems :: "'a list slot"
  current :: nat
  controllers :: "bool list"
  tasks :: "'a task list"
  timers :: "(nat \<times> timer) list"
  next_timer :: nat
  requests :: "request list"
  uncaught :: "js_error list"
  now :: nat

text \<open>
  The component as mounted (lines 6 to 10): no error, no loader, one controller,
  not aborted. The caller's slots start at \<^verbatim>\<open>null\<close>.
\<close>

definition init :: "'a state" where
  "init = \<lparr> errorMessage = [], showError = False, loader = False,
            userInfo = Null, userRatings = Null, userProblems = Null,
            current = 0, controllers = [False], tasks = [],
            timers = [], next_timer = 0, requests = [], uncaught = [], now = 0 \<rparr>"

subsection \<open>Timers, controllers, fetch\<close>

text \<open>\<^verbatim>\<open>setTimeout(callback, delay)\<close>; the identifier it returns is \<open>next_timer s\<close>.\<close>

definition setTimeout :: "timer_action \<Rightarrow> nat \<Rightarrow> 'a state \<Rightarrow> 'a state" where
  "setTimeout act delay s =
     s\<lparr> timers := timers s @ [(next_timer s, \<lparr> due = now s + delay, action = act \<rparr>)],
        next_timer := Suc (next_timer s) \<rparr>"

definition clearTimeout :: "nat \<Rightarrow> 'a state \<Rightarrow> 'a state" where
  "clearTimeout tid s = s\<lparr> timers := filter (\<lambda>p. fst p \<noteq> tid) (timers s) \<rparr>"

text \<open>\<^verbatim>\<open>abortControllerRef.current.abort()\<close>.\<close>

definition abort_current :: "'a state \<Rightarrow> 'a state" where
  "abort_current s = s\<lparr> controllers := (controllers s)[current s := True] \<rparr>"

text \<open>\<^verbatim>\<open>abortControllerRef.current = new AbortController()\<close>.\<close>

definition new_controller :: "'a state \<Rightarrow> 'a state" where
  "new_controller s =
     s\<lparr> current := length (controllers s), controllers := controllers s @ [False] \<rparr>"

text \<open>The three URLs (lines 57, 64 and 71).\<close>

fun endpoint :: "call \<Rightarrow> string" where
  "endpoint UserInfo = ''user.info?handles=''"
| "endpoint UserRating = ''user.rating?handle=''"
| "endpoint UserStatus = ''user.status?handle=''"

text \<open>
  \<^verbatim>\<open>fetch(url, {signal: abortControllerRef.current.signal})\<close>: the signal is the one
  of the controller that is current when the call is made.
\<close>

definition fetch :: "string \<Rightarrow> 'a state \<Rightarrow> 'a state" where
  "fetch u s = s\<lparr> requests := requests s @ [\<lparr> url = u, signal = current s \<rparr>] \<rparr>"

subsection \<open>The handler\<close>

definition invalid_response_message :: string where
  "invalid_response_message =
     ''Received invalid response from Codeforces. Possible issues:'' @ [CHR 0x0A]
     @ ''1. Codeforces API is down'' @ [CHR 0x0A]
     @ ''2. Invalid handle'' @ [CHR 0x0A]
     @ ''3. Rate limiting''"

text \<open>The \<^verbatim>\<open>catch\<close> block (lines 79 to 97).\<close>

definition classify :: "js_error \<Rightarrow> string" where
  "classify e =
     (if err_name e = ''AbortError'' then ''Request cancelled''
      else if str_includes (err_message e) ''non-JSON'' then invalid_response_message
      else err_message e)"

definition catch_block :: "js_error \<Rightarrow> 'a state \<Rightarrow> 'a state" where
  "catch_block e s =
     setTimeout HideError 10000
       (s\<lparr> loader := False, errorMessage := classify e, showError := True \<rparr>)"

text \<open>Writing the stage of invocation \<open>i\<close>.\<close>

definition set_stage :: "nat \<Rightarrow> 'a stage \<Rightarrow> 'a state \<Rightarrow> 'a state" where
  "set_stage i st s = s\<lparr> tasks := (tasks s)[i := (tasks s ! i)\<lparr> stage := st \<rparr>] \<rparr>"

text \<open>An error thrown inside the \<^verbatim>\<open>try\<close> block of invocation \<open>i\<close>.\<close>

definition throw_in :: "nat \<Rightarrow> js_error \<Rightarrow> 'a state \<Rightarrow> 'a state" where
  "throw_in i e s = set_stage i (Done (Failed e)) (catch_block e s)"

definition misconfigured :: js_error where
  "misconfigured = Error ''API endpoint misconfigured. Check environment variables.''"

text \<open>
  \<^verbatim>\<open>handleSearch\<close> from its first line to its first \<^verbatim>\<open>await\<close> (lines 29 to 57):
  \<open>raw\<close> is the value of the input field and \<open>env\<close> the value of
  \<^verbatim>\<open>import.meta.env.VITE_CF_URL\<close> (\<open>None\<close> for \<^verbatim>\<open>undefined\<close>). \<^verbatim>\<open>!API_BASE\<close> holds of
  \<^verbatim>\<open>undefined\<close> and of the empty string.
\<close>

definition handleSearch :: "string \<Rightarrow> string option \<Rightarrow> 'a state \<Rightarrow> 'a state" where
  "handleSearch raw env s =
     (let i = length (tasks s);
          s1 = new_controller (abort_current s);
          s2 = s1\<lparr> loader := True, showError := False,
                   userInfo := Null, userRatings := Null, userProblems := Null \<rparr>;
          t = \<lparr> searchValue = trim raw, API_BASE = env, timeoutId = None,
                stage = AwaitFetch UserInfo (current s2) \<rparr>;
          s3 = s2\<lparr> tasks := tasks s2 @ [t] \<rparr>
      in case env of
           None \<Rightarrow> throw_in i misconfigured s3
         | Some base \<Rightarrow>
             if base = [] \<or> \<not> startsWith base ''http'' then throw_in i misconfigured s3
             else
               (let s4 = setTimeout AbortCurrent 10000 s3;
                    s5 = s4\<lparr> tasks := (tasks s4)[i := (tasks s4 ! i)\<lparr> timeoutId := Some (next_timer s3) \<rparr>] \<rparr>
                in fetch (base @ endpoint UserInfo @ trim raw) s5))"

text \<open>The URL of a later call of invocation \<open>i\<close>, from the variables of its closure.\<close>

definition call_url :: "'a task \<Rightarrow> call \<Rightarrow> string" where
  "call_url t k = (case API_BASE t of None \<Rightarrow> [] | Some base \<Rightarrow> base) @ endpoint k @ searchValue t"

text \<open>
  Issuing the next call: the fetch is given the signal of the controller that
  is current now, and the invocation suspends on it.
\<close>

definition next_call :: "nat \<Rightarrow> call \<Rightarrow> 'a state \<Rightarrow> 'a state" where
  "next_call i k s =
     set_stage i (AwaitFetch k (current s)) (fetch (call_url (tasks s ! i) k) s)"

text \<open>
  What invocation \<open>i\<close> does with the validated payload of a call, up to its next
  \<^verbatim>\<open>await\<close> (lines 61 to 64, 68 to 71, 75 to 78). \<^verbatim>\<open>userInfoData.result[0]\<close> throws
  when \<^verbatim>\<open>result\<close> is absent and is \<^verbatim>\<open>undefined\<close> on the empty array.
\<close>

fun after_validate :: "nat \<Rightarrow> call \<Rightarrow> 'a payload \<Rightarrow> 'a state \<Rightarrow> 'a state" where
  "after_validate i UserInfo data s =
     (case result data of
        None \<Rightarrow> throw_in i undefined_index_error s
      | Some [] \<Rightarrow> next_call i UserRating (s\<lparr> userInfo := Undefined \<rparr>)
      | Some (x # _) \<Rightarrow> next_call i UserRating (s\<lparr> userInfo := Val x \<rparr>))"
| "after_validate i UserRating data s =
     next_call i UserStatus
       (s\<lparr> userRatings := (case result data of None \<Rightarrow> Undefined | Some xs \<Rightarrow> Val xs) \<rparr>)"
| "after_validate i UserStatus data s =
     (let s1 = s\<lparr> userProblems := (case result data of None \<Rightarrow> Undefined | Some xs \<Rightarrow> Val xs) \<rparr>;
          s2 = (case timeoutId (tasks s1 ! i) of None \<Rightarrow> s1 | Some tid \<Rightarrow> clearTimeout tid s1)
      in set_stage i (Done Success) (s2\<lparr> loader := False \<rparr>))"

text \<open>
  The promise of \<^verbatim>\<open>fetch\<close> awaited by invocation \<open>i\<close> settles: a rejection is thrown
  into the \<^verbatim>\<open>try\<close> block, a response is passed to \<^verbatim>\<open>validateResponse\<close>, which
  suspends on the body. A settlement nobody awaits does nothing.
\<close>

definition fetch_settles :: "nat \<Rightarrow> js_error + 'a response \<Rightarrow> 'a state \<Rightarrow> 'a state" where
  "fetch_settles i r s =
     (if i < length (tasks s) then
        (case stage (tasks s ! i) of
           AwaitFetch k c \<Rightarrow>
             (case r of
                Inl e \<Rightarrow> throw_in i e s
              | Inr response \<Rightarrow> set_stage i (AwaitBody k c response) s)
         | _ \<Rightarrow> s)
      else s)"

text \<open>The body read awaited by invocation \<open>i\<close> settles.\<close>

definition body_settles :: "nat \<Rightarrow> 'a state \<Rightarrow> 'a state" where
  "body_settles i s =
     (if i < length (tasks s) then
        (case stage (tasks s ! i) of
           AwaitBody k c response \<Rightarrow>
             (case validateResponse response of
                Inl e \<Rightarrow> throw_in i e s
              | Inr data \<Rightarrow> after_validate i k data s)
         | _ \<Rightarrow> s)
      else s)"

text \<open>
  The callback of the timeout (lines 51 to 54): it aborts the controller that
  is current when it runs, and throws. It runs as a task of its own, outside
  the \<^verbatim>\<open>try\<close> block that scheduled it, so nothing catches what it throws.
\<close>

definition timed_out :: js_error where
  "timed_out = Error ''Request timed out (10 seconds)''"

fun run_timer :: "timer_action \<Rightarrow> 'a state \<Rightarrow> 'a state" where
  "run_timer AbortCurrent s = (abort_current s)\<lparr> uncaught := uncaught (abort_current s) @ [timed_out] \<rparr>"
| "run_timer HideError s = s\<lparr> showError := False \<rparr>"

text \<open>A pending timer fires once its delay has passed; it is pending no more.\<close>

definition fire :: "nat \<Rightarrow> 'a state \<Rightarrow> 'a state" where
  "fire tid s =
     (case map_of (timers s) tid of
        None \<Rightarrow> s
      | Some t \<Rightarrow> if due t \<le> now s then run_timer (action t) (clearTimeout tid s) else s)"

subsection \<open>Aborted signals\<close>

text \<open>
  A promise of \<^verbatim>\<open>fetch\<close> or of a body read whose signal is aborted rejects with
  an \<^verbatim>\<open>AbortError\<close>; the invocation awaiting it resumes in its \<^verbatim>\<open>catch\<close> block
  once the running task has reached its end. \<open>settle_aborted\<close> goes through the
  invocations from position \<open>i\<close> on, in the order of their creation.
\<close>

fun awaits :: "'a stage \<Rightarrow> nat option" where
  "awaits (AwaitFetch k c) = Some c"
| "awaits (AwaitBody k c r) = Some c"
| "awaits (Done out) = None"

definition rejected :: "bool list \<Rightarrow> 'a task \<Rightarrow> bool" where
  "rejected cs t = (case awaits (stage t) of
                      None \<Rightarrow> False
                    | Some c \<Rightarrow> c < length cs \<and> cs ! c)"

fun settle_aborted :: "nat \<Rightarrow> 'a task list \<Rightarrow> 'a state \<Rightarrow> 'a state" where
  "settle_aborted i [] s = s"
| "settle_aborted i (t # ts) s =
     settle_aborted (Suc i) ts
       (if rejected (controllers s) t then throw_in i AbortError s else s)"

definition microtasks :: "'a state \<Rightarrow> 'a state" where
  "microtasks s = settle_aborted 0 (tasks s) s"

subsection \<open>The event loop\<close>

datatype 'a event =
    Submit string "string option"
  | FetchSettles nat "js_error + 'a response"
  | BodySettles nat
  | Fire nat
  | Elapse nat

fun handle :: "'a event \<Rightarrow> 'a state \<Rightarrow> 'a state" where
  "handle (Submit raw env) s = handleSearch raw env s"
| "handle (FetchSettles i r) s = fetch_settles i r s"
| "handle (BodySettles i) s = body_settles i s"
| "handle (Fire tid) s = fire tid s"
| "handle (Elapse d) s = s\<lparr> now := now s + d \<rparr>"

definition step :: "'a event \<Rightarrow> 'a state \<Rightarrow> 'a state" where
  "step ev s = microtasks (handle ev s)"

fun run :: "'a event list \<Rightarrow> 'a state \<Rightarrow> 'a state" where
  "run [] s = s"
| "run (ev # evs) s = run evs (step ev s)"

subsection \<open>Invocations in flight\<close>

text \<open>
  No invocation is suspended: each has run to its end or into its \<^verbatim>\<open>catch\<close> block.
\<close>

definition idle :: "'a state \<Rightarrow> bool" where
  "idle s = (\<forall>t\<in>set (tasks s). awaits (stage t) = None)"

text \<open>
  What holds between two tasks of the event loop, whatever the events were
  (\<open>wf_run\<close> below): the current controller exists; only the latest invocation
  can be suspended, and then on the signal of the current controller, which is
  not aborted; the identifiers of the pending timers are below the next one.
\<close>

definition wf :: "'a state \<Rightarrow> bool" where
  "wf s = (current s < length (controllers s)
         \<and> (\<forall>t\<in>set (butlast (tasks s)). awaits (stage t) = None)
         \<and> (\<forall>c. tasks s \<noteq> [] \<and> awaits (stage (last (tasks s))) = Some c
                \<longrightarrow> c = current s \<and> \<not> controllers s ! c)
         \<and> (\<forall>p\<in>set (timers s). fst p < next_timer s))"

text \<open>
  The invocation that \<^verbatim>\<open>handleSearch\<close> leaves behind when it returns: ended by the
  configuration check, or suspended on the first fetch.
\<close>

definition new_task :: "string \<Rightarrow> string option \<Rightarrow> 'a state \<Rightarrow> 'a task" where
  "new_task raw env s =
     (case env of
        None \<Rightarrow> \<lparr> searchValue = trim raw, API_BASE = env, timeoutId = None,
                  stage = Done (Failed misconfigured) \<rparr>
      | Some base \<Rightarrow>
          if base = [] \<or> \<not> startsWith base ''http''
          then \<lparr> searchValue = trim raw, API_BASE = env, timeoutId = None,
                 stage = Done (Failed misconfigured) \<rparr>
          else \<lparr> searchValue = trim raw, API_BASE = env, timeoutId = Some (next_timer s),
                 stage = AwaitFetch UserInfo (length (controllers s)) \<rparr>)"

text \<open>What the rejection of an aborted promise does to the invocation awaiting it.\<close>

definition mark :: "bool list \<Rightarrow> 'a task \<Rightarrow> 'a task" where
  "mark cs t = (if rejected cs t then t\<lparr> stage := Done (Failed AbortError) \<rparr> else t)"


subsection \<open>Examples\<close>

text \<open>
  A base URL, a network failure of \<^verbatim>\<open>fetch\<close>, a JSON response with status
  \<^verbatim>\<open>OK\<close>, and the state in which the profile of a handle has been reported and
  the rating call is in flight.
\<close>

definition api_base :: string where
  "api_base = ''https://codeforces.com/api/''"

definition network_error :: js_error where
  "network_error = JsError ''TypeError'' ''Failed to fetch''"

definition json_ok :: "'a list \<Rightarrow> 'a response" where
  "json_ok xs = \<lparr> content_type = Some ''application/json'', text_body = Inr [],
                  json_body = Inr \<lparr> status = Some ''OK'', comment = None, result = Some xs \<rparr> \<rparr>"

definition profile_reported :: "nat state" where
  "profile_reported =
     run [Submit ''tourist'' (Some api_base), FetchSettles 0 (Inr (json_ok [7])), BodySettles 0] init"

text \<open>
  An HTML error page served instead of JSON, the state in which its body is
  being read, an API failure with a given comment, and the state in which the
  profile has been reported and the body of a failed rating call is being read.
\<close>

definition html_body :: string where
  "html_body = ''<html><body>503 Service Unavailable</body></html>''"

definition html_page :: "nat response" where
  "html_page = \<lparr> content_type = Some ''text/html; charset=utf-8'', text_body = Inr html_body,
                  json_body = Inl (JsError ''SyntaxError'' ''Unexpected token <'') \<rparr>"

definition html_pending :: "nat state" where
  "html_pending = run [Submit ''tourist'' (Some api_base), FetchSettles 0 (Inr html_page)] init"

definition api_failure :: "string option \<Rightarrow> nat response" where
  "api_failure cm = \<lparr> content_type = Some ''application/json'', text_body = Inr [],
                       json_body = Inr \<lparr> status = Some ''FAILED'', comment = cm, result = None \<rparr> \<rparr>"

definition rating_failure_pending :: "string option \<Rightarrow> nat state" where
  "rating_failure_pending cm =
     run [Submit ''tourist'' (Some api_base), FetchSettles 0 (Inr (json_ok [7])), BodySettles 0,
          FetchSettles 0 (Inr (api_failure cm))] init"


definition first_pending :: "nat state" where
  "first_pending = run [Submit ''tourist'' (Some api_base), Elapse 200] init"




definition second_pending :: "nat state" where
  "second_pending = step (Submit ''Petr'' (Some api_base)) first_pending"

definition timed_out_pending :: "nat state" where
  "timed_out_pending = run [Submit ''tourist'' (Some api_base), Elapse 10000] init"

definition stale_timer :: "nat state" where
  "stale_timer =
     run [Submit ''tourist'' (Some api_base), FetchSettles 0 (Inl network_error), Elapse 5000,
          Submit ''Petr'' (Some api_base), Elapse 5000] init"

definition two_errors :: "nat state" where
  "two_errors =
     run [Submit ''tourist'' None, Elapse 5000, Submit ''Petr'' None, Elapse 5000] init"

definition error_due :: "nat state" where
  "error_due = run [Submit ''tourist'' None, Elapse 10000] init"

subsection \<open>The spec's reading of the configuration check\<close>

text \<open>
  Following the spec's words, not the source: a base URL that starts with an
  HTTP scheme, \<^verbatim>\<open>http://\<close> or \<^verbatim>\<open>https://\<close>. Every well-formed absolute HTTP(S) URL
  has this form (up to the case of the scheme's letters).
\<close>

definition http_scheme :: "string \<Rightarrow> bool" where
  "http_scheme b = (prefix ''http://'' b \<or> prefix ''https://'' b)"

section \<open>Properties of the model\<close>

lemmas model_defs = init_def step_def microtasks_def handleSearch_def throw_in_def catch_block_def
  classify_def set_stage_def setTimeout_def clearTimeout_def abort_current_def new_controller_def
  fetch_def next_call_def call_url_def fetch_settles_def body_settles_def fire_def rejected_def
  validateResponse_def trim_def is_space_def wide_spaces_def startsWith_def Error_def AbortError_def
  misconfigured_def timed_out_def undefined_index_error_def non_json_prefix_def
  invalid_response_message_def Let_def

lemmas example_defs = json_ok_def api_base_def network_error_def
  html_body_def html_page_def html_pending_def api_failure_def rating_failure_pending_def

subsection \<open>Rejections of aborted promises\<close>


lemma throw_in_fields [simp]:
  "controllers (throw_in i e s) = controllers s"
  "current (throw_in i e s) = current s"
  "userInfo (throw_in i e s) = userInfo s"
  "userRatings (throw_in i e s) = userRatings s"
  "userProblems (throw_in i e s) = userProblems s"
  "requests (throw_in i e s) = requests s"
  "uncaught (throw_in i e s) = uncaught s"
  "now (throw_in i e s) = now s"
  "loader (throw_in i e s) = False"
  "showError (throw_in i e s) = True"
  "errorMessage (throw_in i e s) = classify e"
  "tasks (throw_in i e s) = (tasks s)[i := (tasks s ! i)\<lparr> stage := Done (Failed e) \<rparr>]"
  "timers (throw_in i e s) = timers s @ [(next_timer s, \<lparr> due = now s + 10000, action = HideError \<rparr>)]"
  "next_timer (throw_in i e s) = Suc (next_timer s)"
  by (simp_all add: throw_in_def catch_block_def set_stage_def setTimeout_def)

lemma settle_tasks:
  "tasks s = pre @ ts \<Longrightarrow> length pre = i \<Longrightarrow>
   tasks (settle_aborted i ts s) = pre @ map (mark (controllers s)) ts
   \<and> controllers (settle_aborted i ts s) = controllers s"
proof (induction ts arbitrary: i s pre)
  case Nil
  then show ?case by simp
next
  case (Cons t ts)
  let ?s' = "if rejected (controllers s) t then throw_in i AbortError s else s"
  have "tasks ?s' = (pre @ [mark (controllers s) t]) @ ts"
    using Cons.prems by (auto simp add: mark_def list_update_append)
  moreover have "length (pre @ [mark (controllers s) t]) = Suc i" using Cons.prems by simp
  moreover have "controllers ?s' = controllers s" by simp
  ultimately show ?case using Cons.IH[of ?s' "pre @ [mark (controllers s) t]" "Suc i"] by simp
qed

lemma settle_id:
  "\<forall>t\<in>set ts. \<not> rejected (controllers s) t \<Longrightarrow> settle_aborted i ts s = s"
  by (induction ts arbitrary: i s) auto

lemma settle_frame:
  "current (settle_aborted i ts s) = current s"
  "userInfo (settle_aborted i ts s) = userInfo s"
  "userRatings (settle_aborted i ts s) = userRatings s"
  "userProblems (settle_aborted i ts s) = userProblems s"
  "requests (settle_aborted i ts s) = requests s"
  "uncaught (settle_aborted i ts s) = uncaught s"
  "now (settle_aborted i ts s) = now s"
  by (induction ts arbitrary: i s; simp)+

lemma settle_append:
  "settle_aborted i (xs @ ys) s = settle_aborted (i + length xs) ys (settle_aborted i xs s)"
  by (induction xs arbitrary: i s) auto

lemma rejected_Done: "awaits (stage t) = None \<Longrightarrow> \<not> rejected cs t"
  by (simp add: rejected_def)

lemma micro_last:
  assumes "tasks s = pre @ [t]" "\<forall>u\<in>set pre. awaits (stage u) = None"
  shows "microtasks s = (if rejected (controllers s) t then throw_in (length pre) AbortError s else s)"
proof -
  have "settle_aborted 0 pre s = s" using assms(2) by (intro settle_id) (simp add: rejected_Done)
  then show ?thesis using assms(1) by (simp add: microtasks_def settle_append)
qed

lemma micro_last2:
  assumes "tasks s = pre @ [t, u]" "\<forall>u\<in>set pre. awaits (stage u) = None" "\<not> rejected (controllers s) u"
  shows "microtasks s = (if rejected (controllers s) t then throw_in (length pre) AbortError s else s)"
proof -
  have "settle_aborted 0 pre s = s" using assms(2) by (intro settle_id) (simp add: rejected_Done)
  then show ?thesis using assms(1,3) by (simp add: microtasks_def settle_append)
qed

lemma micro_idle: "idle s \<Longrightarrow> microtasks s = s"
  unfolding microtasks_def idle_def by (intro settle_id) (simp add: rejected_Done)

lemma wf_quiescent: "wf s \<Longrightarrow> microtasks s = s"
proof (cases "tasks s = []")
  case True then show ?thesis by (simp add: microtasks_def)
next
  case False
  assume w: "wf s"
  have eq: "tasks s = butlast (tasks s) @ [last (tasks s)]" using False by simp
  have "\<not> rejected (controllers s) (last (tasks s))"
    using w False by (auto simp: wf_def rejected_def split: option.splits)
  moreover have "\<forall>u\<in>set (butlast (tasks s)). awaits (stage u) = None" using w by (simp add: wf_def)
  ultimately show ?thesis using micro_last[OF eq] by simp
qed

lemma wf_await:
  assumes "wf s" "i < length (tasks s)" "awaits (stage (tasks s ! i)) = Some c"
  shows "Suc i = length (tasks s) \<and> c = current s \<and> c < length (controllers s) \<and> \<not> controllers s ! c
         \<and> tasks s = butlast (tasks s) @ [tasks s ! i] \<and> length (butlast (tasks s)) = i"
proof -
  have ne: "tasks s \<noteq> []" using assms(2) by auto
  have "\<not> i < length (butlast (tasks s))"
  proof
    assume lt: "i < length (butlast (tasks s))"
    then have "butlast (tasks s) ! i \<in> set (butlast (tasks s))" by (rule nth_mem)
    moreover have "butlast (tasks s) ! i = tasks s ! i" using lt by (rule nth_butlast)
    ultimately show False using assms(1,3) by (auto simp: wf_def)
  qed
  then have i: "Suc i = length (tasks s)" using assms(2) by simp
  have "length (tasks s) - 1 = i" using i by arith
  then have l: "last (tasks s) = tasks s ! i" using ne by (simp add: last_conv_nth)
  have "c = current s \<and> \<not> controllers s ! c" using assms(1,3) l ne by (auto simp: wf_def)
  moreover have "current s < length (controllers s)" using assms(1) by (simp add: wf_def)
  moreover have "tasks s = butlast (tasks s) @ [tasks s ! i]" using l ne by (metis append_butlast_last_id)
  moreover have "length (butlast (tasks s)) = i" using i by simp
  ultimately show ?thesis using i by blast
qed


lemma wf_init: "wf init"
  by (simp add: wf_def init_def)

lemma handleSearch_controllers:
  "controllers (handleSearch raw env s) = (controllers s)[current s := True] @ [False]"
  "current (handleSearch raw env s) = length (controllers s)"
  by (auto simp: handleSearch_def Let_def new_controller_def abort_current_def fetch_def
      setTimeout_def throw_in_def set_stage_def catch_block_def split: option.splits)

lemma handleSearch_tasks:
  "tasks (handleSearch raw env s) = tasks s @ [new_task raw env s]"
  by (auto simp: handleSearch_def Let_def new_controller_def abort_current_def fetch_def new_task_def
      setTimeout_def throw_in_def set_stage_def catch_block_def split: option.splits)

lemma new_task_not_rejected:
  "\<not> rejected ((controllers s)[current s := True] @ [False]) (new_task raw env s)"
  by (auto simp: new_task_def rejected_def nth_append split: option.splits)

lemma step_submit_idle:
  assumes "idle s"
  shows "step (Submit raw env) s = handleSearch raw env s"
proof -
  have "\<forall>u\<in>set (tasks s). awaits (stage u) = None" using assms by (simp add: idle_def)
  from micro_last[OF handleSearch_tasks this, of raw env]
  show ?thesis by (simp add: step_def handleSearch_controllers new_task_not_rejected)
qed

lemma step_submit_busy:
  assumes "wf s" "i < length (tasks s)" "awaits (stage (tasks s ! i)) = Some c"
  shows "step (Submit raw env) s = throw_in i AbortError (handleSearch raw env s)"
proof -
  from wf_await[OF assms] have
    c: "c = current s" "c < length (controllers s)" and
    ts: "tasks s = butlast (tasks s) @ [tasks s ! i]" and len: "length (butlast (tasks s)) = i"
    by blast+
  have pre: "\<forall>u\<in>set (butlast (tasks s)). awaits (stage u) = None" using assms(1) by (simp add: wf_def)
  have eq: "tasks (handleSearch raw env s) = butlast (tasks s) @ [tasks s ! i, new_task raw env s]"
    using ts by (simp add: handleSearch_tasks)
  have rej: "rejected (controllers (handleSearch raw env s)) (tasks s ! i)"
    using assms(3) c by (simp add: rejected_def handleSearch_controllers nth_append)
  from micro_last2[OF eq pre] rej len
  show ?thesis by (simp add: step_def handleSearch_controllers new_task_not_rejected)
qed


lemma handleSearch_timers_wf:
  "\<forall>p\<in>set (timers s). fst p < next_timer s \<Longrightarrow>
   \<forall>p\<in>set (timers (handleSearch raw env s)). fst p < next_timer (handleSearch raw env s)"
  by (auto simp: handleSearch_def Let_def new_controller_def abort_current_def fetch_def
      setTimeout_def throw_in_def set_stage_def catch_block_def less_Suc_eq split: option.splits)

lemma wf_handleSearch:
  assumes "wf s" "idle s"
  shows "wf (handleSearch raw env s)"
proof -
  have "\<forall>t\<in>set (tasks s). awaits (stage t) = None" using assms(2) by (simp add: idle_def)
  moreover have "\<forall>c. awaits (stage (new_task raw env s)) = Some c \<longrightarrow> c = length (controllers s)"
    by (auto simp: new_task_def split: option.splits)
  moreover have "\<forall>p\<in>set (timers (handleSearch raw env s)). fst p < next_timer (handleSearch raw env s)"
    using assms(1) by (intro handleSearch_timers_wf) (simp add: wf_def)
  ultimately show ?thesis
    by (simp add: wf_def handleSearch_tasks handleSearch_controllers nth_append)
qed

lemma wf_throw_in_last:
  assumes "wf s" "Suc i = length (tasks s)"
  shows "wf (throw_in i e s) \<and> idle (throw_in i e s)"
proof -
  have ne: "tasks s \<noteq> []" using assms(2) by auto
  then have ts: "tasks s = butlast (tasks s) @ [last (tasks s)]" by simp
  have len: "length (butlast (tasks s)) = i" using assms(2) by simp
  have upd: "(tasks s)[i := x] = butlast (tasks s) @ [x]" for x
    using list_update_length[of "butlast (tasks s)" "last (tasks s)" "[]" x] ts len by simp
  have pre: "\<forall>t\<in>set (butlast (tasks s)). awaits (stage t) = None" using assms(1) by (simp add: wf_def)
  have tm: "\<forall>p\<in>set (timers s). fst p < next_timer s" using assms(1) by (simp add: wf_def)
  have cur: "current s < length (controllers s)" using assms(1) by (simp add: wf_def)
  show ?thesis using pre tm cur by (auto simp: wf_def idle_def upd less_Suc_eq)
qed

lemma wf_set_stage_last:
  assumes "wf s" "Suc i = length (tasks s)"
    and "\<forall>c. awaits st = Some c \<longrightarrow> c = current s \<and> \<not> controllers s ! c"
  shows "wf (set_stage i st s)"
proof -
  have ne: "tasks s \<noteq> []" using assms(2) by auto
  then have ts: "tasks s = butlast (tasks s) @ [last (tasks s)]" by simp
  have len: "length (butlast (tasks s)) = i" using assms(2) by simp
  have upd: "(tasks s)[i := x] = butlast (tasks s) @ [x]" for x
    using list_update_length[of "butlast (tasks s)" "last (tasks s)" "[]" x] ts len by simp
  have pre: "\<forall>t\<in>set (butlast (tasks s)). awaits (stage t) = None" using assms(1) by (simp add: wf_def)
  have tm: "\<forall>p\<in>set (timers s). fst p < next_timer s" using assms(1) by (simp add: wf_def)
  have cur: "current s < length (controllers s)" using assms(1) by (simp add: wf_def)
  show ?thesis using pre tm cur assms(3) by (auto simp: wf_def set_stage_def upd)
qed

lemma wf_frame:
  assumes "wf s" "tasks s' = tasks s" "controllers s' = controllers s" "current s' = current s"
    "set (timers s') \<subseteq> set (timers s)" "next_timer s' = next_timer s"
  shows "wf s'"
  using assms by (auto simp: wf_def)


lemma awaits_None_iff: "awaits st = None \<longleftrightarrow> (\<exists>out. st = Done out)"
  by (cases st) auto

lemma idle_nth: "idle s \<Longrightarrow> i < length (tasks s) \<Longrightarrow> \<exists>out. stage (tasks s ! i) = Done out"
  by (simp add: idle_def awaits_None_iff [symmetric])

lemma fetch_settles_idle: "idle s \<Longrightarrow> fetch_settles i r s = s"
  by (auto simp: fetch_settles_def dest: idle_nth)

lemma body_settles_idle: "idle s \<Longrightarrow> body_settles i s = s"
  by (auto simp: body_settles_def dest: idle_nth)

lemma run_timer_frame [simp]:
  "tasks (run_timer a s) = tasks s"
  "current (run_timer a s) = current s"
  "requests (run_timer a s) = requests s"
  "timers (run_timer a s) = timers s"
  "next_timer (run_timer a s) = next_timer s"
  "userInfo (run_timer a s) = userInfo s"
  "userRatings (run_timer a s) = userRatings s"
  "userProblems (run_timer a s) = userProblems s"
  "now (run_timer a s) = now s"
  by (cases a; simp add: abort_current_def)+

lemma fire_frame [simp]:
  "tasks (fire tid s) = tasks s"
  "current (fire tid s) = current s"
  "requests (fire tid s) = requests s"
  "next_timer (fire tid s) = next_timer s"
  "userInfo (fire tid s) = userInfo s"
  "userRatings (fire tid s) = userRatings s"
  "userProblems (fire tid s) = userProblems s"
  "now (fire tid s) = now s"
  by (simp_all add: fire_def clearTimeout_def split: option.splits)

lemma idle_step:
  assumes "idle s" "\<forall>raw env. ev \<noteq> Submit raw env"
  shows "step ev s = handle ev s \<and> idle (handle ev s) \<and> requests (handle ev s) = requests s"
proof -
  have "idle (handle ev s) \<and> requests (handle ev s) = requests s"
    using assms by (cases ev) (auto simp: fetch_settles_idle body_settles_idle idle_def)
  then show ?thesis by (simp add: step_def micro_idle)
qed

lemma idle_run:
  "idle s \<Longrightarrow> \<forall>raw env. Submit raw env \<notin> set evs \<Longrightarrow>
   idle (run evs s) \<and> requests (run evs s) = requests s"
proof (induction evs arbitrary: s)
  case Nil
  then show ?case by simp
next
  case (Cons ev evs)
  have ns: "\<forall>raw env. ev \<noteq> Submit raw env" using Cons.prems(2) by auto
  from idle_step[OF Cons.prems(1) ns] have
    st: "step ev s = handle ev s" "idle (handle ev s)" "requests (handle ev s) = requests s"
    by blast+
  have "\<forall>raw env. Submit raw env \<notin> set evs" using Cons.prems(2) by auto
  from Cons.IH[OF st(2) this] show ?case using st by simp
qed


lemma step_wf_handle: "wf (handle ev s) \<Longrightarrow> step ev s = handle ev s"
  by (simp add: step_def wf_quiescent)

lemma step_fetch_response:
  assumes "wf s" "i < length (tasks s)" "stage (tasks s ! i) = AwaitFetch k c"
  shows "step (FetchSettles i (Inr r)) s = set_stage i (AwaitBody k c r) s"
    and "wf (set_stage i (AwaitBody k c r) s)"
proof -
  have aw: "awaits (stage (tasks s ! i)) = Some c" using assms(3) by simp
  from wf_await[OF assms(1,2) aw] have i: "Suc i = length (tasks s)"
    and c: "c = current s" "\<not> controllers s ! c" by blast+
  show w: "wf (set_stage i (AwaitBody k c r) s)"
    using c by (intro wf_set_stage_last[OF assms(1) i]) simp
  have "handle (FetchSettles i (Inr r)) s = set_stage i (AwaitBody k c r) s"
    using assms(2,3) by (simp add: fetch_settles_def)
  then show "step (FetchSettles i (Inr r)) s = set_stage i (AwaitBody k c r) s"
    using w step_wf_handle[of "FetchSettles i (Inr r)" s] by simp
qed

lemma step_fetch_rejected:
  assumes "wf s" "i < length (tasks s)" "stage (tasks s ! i) = AwaitFetch k c"
  shows "step (FetchSettles i (Inl e)) s = throw_in i e s"
    and "wf (throw_in i e s)" and "idle (throw_in i e s)"
proof -
  have aw: "awaits (stage (tasks s ! i)) = Some c" using assms(3) by simp
  from wf_await[OF assms(1,2) aw] have i: "Suc i = length (tasks s)" by blast
  from wf_throw_in_last[OF assms(1) i] show w: "wf (throw_in i e s)" and "idle (throw_in i e s)"
    by blast+
  have "handle (FetchSettles i (Inl e)) s = throw_in i e s"
    using assms(2,3) by (simp add: fetch_settles_def)
  then show "step (FetchSettles i (Inl e)) s = throw_in i e s"
    using w step_wf_handle[of "FetchSettles i (Inl e)" s] by simp
qed

lemma step_body_invalid:
  assumes "wf s" "i < length (tasks s)" "stage (tasks s ! i) = AwaitBody k c r"
    and "validateResponse r = Inl e"
  shows "step (BodySettles i) s = throw_in i e s"
    and "wf (throw_in i e s)" and "idle (throw_in i e s)"
proof -
  have aw: "awaits (stage (tasks s ! i)) = Some c" using assms(3) by simp
  from wf_await[OF assms(1,2) aw] have i: "Suc i = length (tasks s)" by blast
  from wf_throw_in_last[OF assms(1) i] show w: "wf (throw_in i e s)" and "idle (throw_in i e s)"
    by blast+
  have "handle (BodySettles i) s = throw_in i e s"
    using assms(2,3,4) by (simp add: body_settles_def)
  then show "step (BodySettles i) s = throw_in i e s"
    using w step_wf_handle[of "BodySettles i" s] by simp
qed

lemma wf_next_call:
  assumes "wf s" "Suc i = length (tasks s)" "\<not> controllers s ! current s"
  shows "wf (next_call i k s)"
proof -
  have "wf (fetch u s)" for u by (rule wf_frame[OF assms(1)]) (simp_all add: fetch_def)
  moreover have "Suc i = length (tasks (fetch u s))" for u using assms(2) by (simp add: fetch_def)
  moreover have "current (fetch u s) = current s" "controllers (fetch u s) = controllers s" for u
    by (simp_all add: fetch_def)
  ultimately show ?thesis unfolding next_call_def
    using assms(3) by (intro wf_set_stage_last) simp_all
qed

lemma wf_after_validate:
  assumes "wf s" "Suc i = length (tasks s)" "\<not> controllers s ! current s"
  shows "wf (after_validate i k d s)"
proof (cases k)
  case UserInfo
  have "wf (s\<lparr>userInfo := v\<rparr>)" for v by (rule wf_frame[OF assms(1)]) simp_all
  then have "wf (next_call i UserRating (s\<lparr>userInfo := v\<rparr>))" for v
    using assms(2,3) by (intro wf_next_call) simp_all
  then show ?thesis using UserInfo wf_throw_in_last[OF assms(1,2)]
    by (auto split: option.splits list.splits)
next
  case UserRating
  have "wf (s\<lparr>userRatings := v\<rparr>)" for v by (rule wf_frame[OF assms(1)]) simp_all
  then have "wf (next_call i UserStatus (s\<lparr>userRatings := v\<rparr>))" for v
    using assms(2,3) by (intro wf_next_call) simp_all
  then show ?thesis using UserRating by simp
next
  case UserStatus
  let ?s1 = "s\<lparr>userProblems := (case result d of None \<Rightarrow> Undefined | Some xs \<Rightarrow> Val xs)\<rparr>"
  let ?s2 = "case timeoutId (tasks ?s1 ! i) of None \<Rightarrow> ?s1 | Some tid \<Rightarrow> clearTimeout tid ?s1"
  have "wf (?s2\<lparr>loader := False\<rparr>)"
    by (rule wf_frame[OF assms(1)]) (auto simp: clearTimeout_def split: option.splits)
  moreover have "Suc i = length (tasks (?s2\<lparr>loader := False\<rparr>))"
    using assms(2) by (auto simp: clearTimeout_def split: option.splits)
  ultimately have "wf (set_stage i (Done Success) (?s2\<lparr>loader := False\<rparr>))"
    by (intro wf_set_stage_last) simp_all
  then show ?thesis using UserStatus by (simp add: Let_def)
qed

lemma step_body_valid:
  assumes "wf s" "i < length (tasks s)" "stage (tasks s ! i) = AwaitBody k c r"
    and "validateResponse r = Inr d"
  shows "step (BodySettles i) s = after_validate i k d s"
    and "wf (after_validate i k d s)"
proof -
  have aw: "awaits (stage (tasks s ! i)) = Some c" using assms(3) by simp
  from wf_await[OF assms(1,2) aw] have i: "Suc i = length (tasks s)"
    and c: "c = current s" "\<not> controllers s ! c" by blast+
  show w: "wf (after_validate i k d s)" using c by (intro wf_after_validate[OF assms(1) i]) simp
  have "handle (BodySettles i) s = after_validate i k d s"
    using assms(2,3,4) by (simp add: body_settles_def)
  then show "step (BodySettles i) s = after_validate i k d s"
    using w step_wf_handle[of "BodySettles i" s] by simp
qed

lemma step_elapse:
  assumes "wf s"
  shows "step (Elapse d) s = s\<lparr>now := now s + d\<rparr>" and "wf (s\<lparr>now := now s + d\<rparr>)"
proof -
  show w: "wf (s\<lparr>now := now s + d\<rparr>)" by (rule wf_frame[OF assms]) simp_all
  then show "step (Elapse d) s = s\<lparr>now := now s + d\<rparr>"
    using step_wf_handle[of "Elapse d" s] by simp
qed


lemma idle_or_busy:
  "idle s \<or> (\<exists>i c. i < length (tasks s) \<and> awaits (stage (tasks s ! i)) = Some c)"
  unfolding idle_def by (metis in_set_conv_nth not_Some_eq)

lemma wf_submit_busy:
  assumes "wf s" "i < length (tasks s)" "awaits (stage (tasks s ! i)) = Some c"
  shows "wf (throw_in i AbortError (handleSearch raw env s))"
proof -
  from wf_await[OF assms] have i: "Suc i = length (tasks s)"
    and ts: "tasks s = butlast (tasks s) @ [tasks s ! i]" and len: "length (butlast (tasks s)) = i"
    by blast+
  have pre: "\<forall>u\<in>set (butlast (tasks s)). awaits (stage u) = None" using assms(1) by (simp add: wf_def)
  have eq: "tasks (handleSearch raw env s) = butlast (tasks s) @ [tasks s ! i, new_task raw env s]"
    using ts by (simp add: handleSearch_tasks)
  have upd: "(tasks (handleSearch raw env s))[i := x] = butlast (tasks s) @ [x, new_task raw env s]" for x
    unfolding eq using list_update_length[of "butlast (tasks s)" "tasks s ! i" "[new_task raw env s]" x] len
    by simp
  have nt: "\<forall>c. awaits (stage (new_task raw env s)) = Some c \<longrightarrow> c = length (controllers s)"
    by (auto simp: new_task_def split: option.splits)
  have tm: "\<forall>p\<in>set (timers (handleSearch raw env s)). fst p < next_timer (handleSearch raw env s)"
    using assms(1) by (intro handleSearch_timers_wf) (simp add: wf_def)
  have bl: "butlast (butlast (tasks s) @ [x, y]) = butlast (tasks s) @ [x]" for x y :: "'a task"
    by (simp add: butlast_append)
  show ?thesis using pre nt tm
    by (auto simp: wf_def upd bl handleSearch_controllers nth_append less_Suc_eq)
qed

lemma wf_step_submit: "wf s \<Longrightarrow> wf (step (Submit raw env) s)"
  using idle_or_busy[of s]
  by (auto simp: step_submit_idle step_submit_busy wf_handleSearch wf_submit_busy)

lemma wf_step_fetch: "wf s \<Longrightarrow> wf (step (FetchSettles i r) s)"
proof -
  assume w: "wf s"
  show ?thesis
  proof (cases "i < length (tasks s) \<and> (\<exists>k c. stage (tasks s ! i) = AwaitFetch k c)")
    case True
    then obtain k c where "i < length (tasks s)" "stage (tasks s ! i) = AwaitFetch k c" by blast
    then show ?thesis using step_fetch_response[OF w] step_fetch_rejected[OF w]
      by (cases r) auto
  next
    case False
    then have "handle (FetchSettles i r) s = s"
      by (auto simp: fetch_settles_def split: stage.splits)
    then show ?thesis using w step_wf_handle[of "FetchSettles i r" s] by simp
  qed
qed

lemma wf_step_body: "wf s \<Longrightarrow> wf (step (BodySettles i) s)"
proof -
  assume w: "wf s"
  show ?thesis
  proof (cases "i < length (tasks s) \<and> (\<exists>k c r. stage (tasks s ! i) = AwaitBody k c r)")
    case True
    then obtain k c r where "i < length (tasks s)" "stage (tasks s ! i) = AwaitBody k c r" by blast
    then show ?thesis using step_body_valid[OF w, of i k c r] step_body_invalid[OF w, of i k c r]
      by (cases "validateResponse r") auto
  next
    case False
    then have "handle (BodySettles i) s = s"
      by (auto simp: body_settles_def split: stage.splits)
    then show ?thesis using w step_wf_handle[of "BodySettles i" s] by simp
  qed
qed

lemma wf_clearTimeout: "wf s \<Longrightarrow> wf (clearTimeout tid s)"
  by (erule wf_frame) (auto simp: clearTimeout_def)

lemma step_fire_hide:
  assumes "wf s" "map_of (timers s) tid = Some t" "action t = HideError" "due t \<le> now s"
  shows "step (Fire tid) s = (clearTimeout tid s)\<lparr>showError := False\<rparr>"
    and "wf ((clearTimeout tid s)\<lparr>showError := False\<rparr>)"
proof -
  show w: "wf ((clearTimeout tid s)\<lparr>showError := False\<rparr>)"
    by (rule wf_frame[OF assms(1)]) (auto simp: clearTimeout_def)
  have "handle (Fire tid) s = (clearTimeout tid s)\<lparr>showError := False\<rparr>"
    using assms(2,3,4) by (simp add: fire_def)
  then show "step (Fire tid) s = (clearTimeout tid s)\<lparr>showError := False\<rparr>"
    using w step_wf_handle[of "Fire tid" s] by simp
qed

lemma step_fire_not_due:
  assumes "wf s" "map_of (timers s) tid = None \<or> (\<exists>t. map_of (timers s) tid = Some t \<and> now s < due t)"
  shows "step (Fire tid) s = s"
proof -
  have "handle (Fire tid) s = s" using assms(2) by (auto simp: fire_def)
  then show ?thesis using assms(1) step_wf_handle[of "Fire tid" s] by simp
qed

lemma step_fire_abort_busy:
  assumes "wf s" "i < length (tasks s)" "awaits (stage (tasks s ! i)) = Some c"
    and "map_of (timers s) tid = Some t" "action t = AbortCurrent" "due t \<le> now s"
  shows "step (Fire tid) s = throw_in i AbortError (run_timer AbortCurrent (clearTimeout tid s))"
    and "wf (throw_in i AbortError (run_timer AbortCurrent (clearTimeout tid s)))"
    and "idle (throw_in i AbortError (run_timer AbortCurrent (clearTimeout tid s)))"
proof -
  let ?s' = "run_timer AbortCurrent (clearTimeout tid s)"
  from wf_await[OF assms(1,2,3)] have i: "Suc i = length (tasks s)"
    and c: "c = current s" "c < length (controllers s)"
    and ts: "tasks s = butlast (tasks s) @ [tasks s ! i]" and len: "length (butlast (tasks s)) = i"
    by blast+
  have h: "fire tid s = ?s'" using assms(4,5,6) by (simp add: fire_def)
  have "tasks ?s' = tasks s" by (simp add: clearTimeout_def abort_current_def)
  then have ts': "tasks ?s' = butlast (tasks s) @ [tasks s ! i]" using ts by simp
  have pre: "\<forall>u\<in>set (butlast (tasks s)). awaits (stage u) = None" using assms(1) by (simp add: wf_def)
  have cs: "controllers ?s' = (controllers s)[current s := True]"
    by (simp add: clearTimeout_def abort_current_def)
  have rej: "rejected (controllers ?s') (tasks s ! i)"
    unfolding cs using assms(3) c by (simp add: rejected_def)
  from micro_last[OF ts' pre] rej len
  show "step (Fire tid) s = throw_in i AbortError ?s'" by (simp add: step_def h)
  have upd: "(tasks s)[i := x] = butlast (tasks s) @ [x]" for x
    using list_update_length[of "butlast (tasks s)" "tasks s ! i" "[]" x] ts len by simp
  have tm: "\<forall>p\<in>set (timers s). fst p < next_timer s" using assms(1) by (simp add: wf_def)
  show "wf (throw_in i AbortError ?s')"
    using pre tm c by (auto simp: wf_def upd abort_current_def clearTimeout_def less_Suc_eq)
  show "idle (throw_in i AbortError ?s')"
    using pre by (auto simp: idle_def upd clearTimeout_def abort_current_def)
qed

lemma wf_idle_run_timer:
  assumes "wf s" "idle s"
  shows "wf (run_timer a s)"
proof (cases a)
  case HideError
  show ?thesis unfolding HideError by (rule wf_frame[OF assms(1)]) simp_all
next
  case AbortCurrent
  have "\<forall>t\<in>set (tasks s). awaits (stage t) = None" using assms(2) by (simp add: idle_def)
  then have "\<forall>t\<in>set (butlast (tasks s)). awaits (stage t) = None"
    and "tasks s \<noteq> [] \<longrightarrow> awaits (stage (last (tasks s))) = None"
    by (auto dest: in_set_butlastD)
  then show ?thesis using assms(1) unfolding AbortCurrent
    by (auto simp: wf_def abort_current_def)
qed

lemma idle_clearTimeout: "idle s \<Longrightarrow> idle (clearTimeout tid s)"
  by (simp add: idle_def clearTimeout_def)

lemma wf_idle_fire: "wf s \<Longrightarrow> idle s \<Longrightarrow> wf (fire tid s)"
  by (simp add: fire_def wf_idle_run_timer wf_clearTimeout idle_clearTimeout split: option.splits)

lemma wf_step_fire: "wf s \<Longrightarrow> wf (step (Fire tid) s)"
proof -
  assume w: "wf s"
  consider (idle) "idle s"
    | (busy) i c where "i < length (tasks s)" "awaits (stage (tasks s ! i)) = Some c"
    using idle_or_busy[of s] by blast
  then show ?thesis
  proof cases
    case idle
    then show ?thesis using idle_step[of s "Fire tid"] wf_idle_fire[OF w] by simp
  next
    case busy
    show ?thesis
    proof (cases "map_of (timers s) tid")
      case None
      then show ?thesis using step_fire_not_due[OF w] w by simp
    next
      case (Some t)
      show ?thesis
      proof (cases "due t \<le> now s")
        case False
        then show ?thesis using step_fire_not_due[OF w, of tid] Some w by simp
      next
        case True
        show ?thesis
        proof (cases "action t")
          case AbortCurrent
          from step_fire_abort_busy(1,2)[OF w busy Some AbortCurrent True] show ?thesis by simp
        next
          case HideError
          from step_fire_hide[OF w Some HideError True] show ?thesis by simp
        qed
      qed
    qed
  qed
qed

lemma wf_step: "wf s \<Longrightarrow> wf (step ev s)"
  by (cases ev) (simp_all add: wf_step_submit wf_step_fetch wf_step_body wf_step_fire step_elapse)

lemma wf_run: "wf s \<Longrightarrow> wf (run evs s)"
  by (induction evs arbitrary: s) (simp_all add: wf_step)

lemma wf_reach: "wf (run evs init)"
  by (rule wf_run[OF wf_init])

lemma str_includes_append: "str_includes xs n \<Longrightarrow> str_includes (xs @ ys) n"
proof (induction xs)
  case Nil
  then show ?case by (cases ys) simp_all
next
  case (Cons c cs)
  have "prefix n (c # cs) \<Longrightarrow> prefix n ((c # cs) @ ys)" by (rule prefix_prefix)
  then show ?case using Cons by auto
qed

lemma classify_non_json:
  "classify (Error (non_json_prefix @ body)) = invalid_response_message"
proof -
  have "str_includes non_json_prefix ''non-JSON''" by (simp add: non_json_prefix_def)
  then have "str_includes (non_json_prefix @ body) ''non-JSON''" by (rule str_includes_append)
  then show ?thesis by (simp add: classify_def Error_def)
qed

subsection \<open>What the tasks of the event loop do\<close>

lemma microtasks_frame:
  "requests (microtasks s) = requests s"
  "userInfo (microtasks s) = userInfo s"
  "userRatings (microtasks s) = userRatings s"
  "userProblems (microtasks s) = userProblems s"
  "uncaught (microtasks s) = uncaught s"
  "now (microtasks s) = now s"
  "current (microtasks s) = current s"
  "controllers (microtasks s) = controllers s"
  "tasks (microtasks s) = map (mark (controllers s)) (tasks s)"
  using settle_tasks[of s "[]" "tasks s" 0]
  by (simp_all add: microtasks_def settle_frame)

lemma microtasks_after_catch:
  assumes "\<not> loader s" "showError s"
  shows "\<not> loader (microtasks s) \<and> showError (microtasks s)"
proof -
  have "\<not> loader s \<and> showError s \<Longrightarrow>
        \<not> loader (settle_aborted i ts s) \<and> showError (settle_aborted i ts s)" for i ts
    by (induction ts arbitrary: i s) simp_all
  then show ?thesis using assms by (simp add: microtasks_def)
qed

lemma handleSearch_misconfigured:
  assumes "env = None \<or> env = Some [] \<or> (\<exists>b. env = Some b \<and> \<not> startsWith b ''http'')"
  shows "handleSearch raw env s =
           throw_in (length (tasks s)) misconfigured
             ((new_controller (abort_current s))
                \<lparr> loader := True, showError := False,
                   userInfo := Null, userRatings := Null, userProblems := Null,
                   tasks := tasks s @ [\<lparr> searchValue = trim raw, API_BASE = env, timeoutId = None,
                                        stage = AwaitFetch UserInfo (length (controllers s)) \<rparr>] \<rparr>)"
  using assms
  by (auto simp: handleSearch_def Let_def new_controller_def abort_current_def split: option.splits)

lemma idle_no_requests:
  assumes "idle s" "\<forall>raw env. Submit raw env \<notin> set evs"
  shows "requests (run evs s) = requests s"
  using idle_run[OF assms] by simp

lemma handleSearch_valid:
  assumes "base \<noteq> []" "startsWith base ''http''"
  shows "handleSearch raw (Some base) s =
     s\<lparr> loader := True, showError := False,
        userInfo := Null, userRatings := Null, userProblems := Null,
        current := length (controllers s),
        controllers := (controllers s)[current s := True] @ [False],
        tasks := tasks s @ [\<lparr> searchValue = trim raw, API_BASE = Some base,
                               timeoutId = Some (next_timer s),
                               stage = AwaitFetch UserInfo (length (controllers s)) \<rparr>],
        timers := timers s @ [(next_timer s, \<lparr> due = now s + 10000, action = AbortCurrent \<rparr>)],
        next_timer := Suc (next_timer s),
        requests := requests s @ [\<lparr> url = base @ ''user.info?handles='' @ trim raw,
                                     signal = length (controllers s) \<rparr>] \<rparr>"
  using assms
  by (simp add: handleSearch_def Let_def new_controller_def abort_current_def fetch_def
      setTimeout_def)

lemma done_fetch_noop:
  assumes "wf s" "i < length (tasks s)" "stage (tasks s ! i) = Done out"
  shows "step (FetchSettles i r) s = s"
proof -
  have "handle (FetchSettles i r) s = s" using assms(2,3) by (simp add: fetch_settles_def)
  then show ?thesis using assms(1) step_wf_handle[of "FetchSettles i r" s] by simp
qed

lemma done_body_noop:
  assumes "wf s" "i < length (tasks s)" "stage (tasks s ! i) = Done out"
  shows "step (BodySettles i) s = s"
proof -
  have "handle (BodySettles i) s = s" using assms(2,3) by (simp add: body_settles_def)
  then show ?thesis using assms(1) step_wf_handle[of "BodySettles i" s] by simp
qed










lemma api_base_http: "api_base \<noteq> []" "startsWith api_base ''http''"
  by (simp_all add: api_base_def startsWith_def)

lemma handleSearch_timers_mono: "set (timers s) \<subseteq> set (timers (handleSearch raw env s))"
  by (auto simp: handleSearch_def Let_def new_controller_def abort_current_def fetch_def
      setTimeout_def throw_in_def set_stage_def catch_block_def split: option.splits)

lemma step_submit_timers_mono:
  assumes "wf s"
  shows "set (timers s) \<subseteq> set (timers (step (Submit raw env) s))"
  using idle_or_busy[of s] handleSearch_timers_mono[of s raw env]
  by (auto simp: step_submit_idle step_submit_busy[OF assms])

section \<open>The claims\<close>

text \<open>
  C1, as amended. When a submission is made while an earlier sequence is in
  flight, the earlier sequence's controller is aborted and that sequence ends
  in its \<^verbatim>\<open>catch\<close> block: after the new submission has begun, it reports
  \<^verbatim>\<open>Request cancelled\<close>, shows the error and clears the loading flag. It reports
  no result and issues no further call, and whatever settles for it later is
  ignored. The new sequence is in flight on a fresh controller, with the three
  slots reset and its first call issued; its own outcome is a second terminal
  outcome.
\<close>

theorem supersede_reports_cancellation:
  fixes s :: "'a state" and raw base :: string
  assumes "wf s" and "i < length (tasks s)" and "awaits (stage (tasks s ! i)) = Some c"
    and "base \<noteq> []" and "startsWith base ''http''"
  defines "s' \<equiv> step (Submit raw (Some base)) s"
  shows "controllers s' ! c
       \<and> stage (tasks s' ! i) = Done (Failed AbortError)
       \<and> errorMessage s' = ''Request cancelled'' \<and> showError s' \<and> \<not> loader s'
       \<and> userInfo s' = Null \<and> userRatings s' = Null \<and> userProblems s' = Null
       \<and> stage (tasks s' ! Suc i) = AwaitFetch UserInfo (current s')
       \<and> \<not> controllers s' ! current s'
       \<and> requests s' = requests s @ [\<lparr> url = base @ ''user.info?handles='' @ trim raw,
                                         signal = current s' \<rparr>]
       \<and> (\<forall>r. step (FetchSettles i r) s' = s')
       \<and> step (BodySettles i) s' = s'"
proof -
  from wf_await[OF assms(1,2,3)] have i: "Suc i = length (tasks s)"
    and c: "c = current s" "c < length (controllers s)" by blast+
  have eq: "s' = throw_in i AbortError (handleSearch raw (Some base) s)"
    unfolding s'_def by (rule step_submit_busy[OF assms(1,2,3)])
  have w: "wf s'" unfolding s'_def by (rule wf_step[OF assms(1)])
  note h = handleSearch_valid[OF assms(4,5), of raw s]
  have len: "i < length (tasks s')" using assms(2) by (simp add: eq h)
  have st: "stage (tasks s' ! i) = Done (Failed AbortError)"
    using assms(2) by (simp add: eq h nth_append)
  have late: "(\<forall>r. step (FetchSettles i r) s' = s') \<and> step (BodySettles i) s' = s'"
    using done_fetch_noop[OF w len st] done_body_noop[OF w len st] by simp
  have rest: "controllers s' ! c
       \<and> errorMessage s' = ''Request cancelled'' \<and> showError s' \<and> \<not> loader s'
       \<and> userInfo s' = Null \<and> userRatings s' = Null \<and> userProblems s' = Null
       \<and> stage (tasks s' ! Suc i) = AwaitFetch UserInfo (current s')
       \<and> \<not> controllers s' ! current s'
       \<and> requests s' = requests s @ [\<lparr> url = base @ ''user.info?handles='' @ trim raw,
                                         signal = current s' \<rparr>]"
    using c i assms(2) by (simp add: eq h nth_append classify_def AbortError_def)
  show ?thesis using st late rest by blast
qed

theorem supersede_reports_cancellation_witness:
  "wf first_pending \<and> 0 < length (tasks first_pending)
   \<and> awaits (stage (tasks first_pending ! 0)) = Some 1
   \<and> startsWith api_base ''http''
   \<and> stage (tasks second_pending ! 0) = Done (Failed AbortError)
   \<and> errorMessage second_pending = ''Request cancelled''
   \<and> showError second_pending \<and> \<not> loader second_pending
   \<and> stage (tasks second_pending ! 1) = AwaitFetch UserInfo 2
   \<and> step (BodySettles 0) second_pending = second_pending"
proof -
  have w: "wf first_pending" unfolding first_pending_def by (rule wf_reach)
  have l: "0 < length (tasks first_pending)"
    and a: "awaits (stage (tasks first_pending ! 0)) = Some 1"
    by (simp_all add: first_pending_def example_defs model_defs)
  have c: "current second_pending = 2"
    by (simp add: second_pending_def first_pending_def example_defs model_defs)
  from supersede_reports_cancellation[OF w l a api_base_http, of "''Petr''"] w l a api_base_http(2) c
  show ?thesis by (simp add: second_pending_def)
qed

text \<open>
  After the second submission has begun, the cancellation of the first is
  shown as an error and the loader is hidden; when the second then fails, two
  terminal outcomes have been reported.
\<close>

theorem supersede_counterexample:
  "stage (tasks second_pending ! 1) = AwaitFetch UserInfo 2
   \<and> stage (tasks second_pending ! 0) = Done (Failed AbortError)
   \<and> showError second_pending \<and> errorMessage second_pending = ''Request cancelled''
   \<and> \<not> loader second_pending
   \<and> map stage (tasks (run [FetchSettles 1 (Inl network_error)] second_pending))
        = [Done (Failed AbortError), Done (Failed network_error)]"
  by (simp add: second_pending_def first_pending_def example_defs model_defs)

text \<open>
  C2, as amended. When the configured base URL is absent, empty, or does not
  begin with the four characters \<^verbatim>\<open>http\<close>, the submission issues no network call
  and fails with the configuration error, which \<^verbatim>\<open>handleSearch\<close> reports before
  it returns; the check is made by every submission, whatever the state. (The
  source tests \<^verbatim>\<open>startsWith("http")\<close> only: it does not test that the value is a
  well-formed HTTP(S) URL, see the counterexample.)
\<close>

theorem misconfigured_no_request:
  assumes "env = None \<or> env = Some [] \<or> (\<exists>b. env = Some b \<and> \<not> startsWith b ''http'')"
  shows "requests (step (Submit raw env) s) = requests s
       \<and> stage (tasks (step (Submit raw env) s) ! length (tasks s)) = Done (Failed misconfigured)
       \<and> \<not> loader (step (Submit raw env) s)
       \<and> showError (step (Submit raw env) s)
       \<and> errorMessage (handleSearch raw env s)
            = ''API endpoint misconfigured. Check environment variables.''
       \<and> (idle s \<longrightarrow> errorMessage (step (Submit raw env) s)
            = ''API endpoint misconfigured. Check environment variables.'')"
proof -
  let ?h = "handleSearch raw env s"
  note h = handleSearch_misconfigured[OF assms, of raw s]
  have nt: "new_task raw env s = \<lparr> searchValue = trim raw, API_BASE = env, timeoutId = None,
                                    stage = Done (Failed misconfigured) \<rparr>"
    using assms by (auto simp: new_task_def)
  have r: "requests ?h = requests s"
    unfolding h by (simp add: new_controller_def abort_current_def)
  have ui: "\<not> loader ?h" "showError ?h" unfolding h by simp_all
  have m: "errorMessage ?h = ''API endpoint misconfigured. Check environment variables.''"
    unfolding h by (simp add: classify_def misconfigured_def Error_def)
  have "tasks (microtasks ?h) ! length (tasks s) = mark (controllers ?h) (new_task raw env s)"
    by (simp add: microtasks_frame handleSearch_tasks nth_append)
  then have st: "stage (tasks (microtasks ?h) ! length (tasks s)) = Done (Failed misconfigured)"
    by (simp add: nt mark_def rejected_def)
  show ?thesis
    using r ui m st microtasks_after_catch[OF ui]
    by (simp add: step_def microtasks_frame step_submit_idle[unfolded step_def, simplified])
qed

theorem misconfigured_no_request_witness:
  "\<not> startsWith ''ftp://codeforces.com/api/'' ''http''
   \<and> requests (step (Submit ''tourist'' (Some ''ftp://codeforces.com/api/'')) (init :: nat state)) = []
   \<and> showError (step (Submit ''tourist'' (Some ''ftp://codeforces.com/api/'')) (init :: nat state))
   \<and> errorMessage (step (Submit ''tourist'' (Some ''ftp://codeforces.com/api/'')) (init :: nat state))
        = ''API endpoint misconfigured. Check environment variables.''"
proof -
  have n: "\<not> startsWith ''ftp://codeforces.com/api/'' ''http''" by (simp add: startsWith_def)
  then have "Some ''ftp://codeforces.com/api/'' = None \<or> Some ''ftp://codeforces.com/api/'' = Some []
           \<or> (\<exists>b. Some ''ftp://codeforces.com/api/'' = Some b \<and> \<not> startsWith b ''http'')"
    by simp
  from misconfigured_no_request[OF this, of "''tourist''" "init :: nat state"] n
  show ?thesis by (simp add: idle_def init_def)
qed

text \<open>
  The value \<^verbatim>\<open>http-proxy/api/\<close> is a relative path: it does not start with an
  HTTP scheme and is no absolute URL. It begins with \<^verbatim>\<open>http\<close>, so the submission
  calls \<^verbatim>\<open>fetch\<close> with it (the browser resolves it against the address of the
  page) and shows no error.
\<close>

theorem misconfigured_counterexample:
  "\<not> http_scheme ''http-proxy/api/''
   \<and> requests (step (Submit ''tourist'' (Some ''http-proxy/api/'')) (init :: nat state))
        = [\<lparr> url = ''http-proxy/api/user.info?handles=tourist'', signal = 1 \<rparr>]
   \<and> \<not> showError (step (Submit ''tourist'' (Some ''http-proxy/api/'')) (init :: nat state))"
  by (simp add: http_scheme_def model_defs)




text \<open>
  C4, as amended. When the content type of the user-info response does not
  indicate JSON and its body can be read, the validator throws an error whose
  message embeds the first 50 characters of the body; the message the
  coordinator reports is the fixed diagnostic of the \<^verbatim>\<open>catch\<close> block, which does
  not embed the body; and no rating or submission call is issued, neither at
  that moment nor later, until the next submission.
\<close>

theorem non_json_reported:
  assumes "wf s" and "i < length (tasks s)"
    and "stage (tasks s ! i) = AwaitBody UserInfo c r"
    and "\<not> str_includes (case content_type r of None \<Rightarrow> [] | Some h \<Rightarrow> h) ''application/json''"
    and "text_body r = Inr txt"
  shows "validateResponse r = Inl (Error (''API returned non-JSON response: '' @ take 50 txt @ ''...''))
       \<and> errorMessage (step (BodySettles i) s) = invalid_response_message
       \<and> showError (step (BodySettles i) s)
       \<and> \<not> loader (step (BodySettles i) s)
       \<and> stage (tasks (step (BodySettles i) s) ! i)
            = Done (Failed (Error (''API returned non-JSON response: '' @ take 50 txt @ ''...'')))
       \<and> requests (step (BodySettles i) s) = requests s
       \<and> (\<forall>evs. (\<forall>raw env. Submit raw env \<notin> set evs) \<longrightarrow>
             requests (run evs (step (BodySettles i) s)) = requests s)"
proof -
  let ?e = "Error (non_json_prefix @ take 50 txt @ ''...'')"
  have v: "validateResponse r = Inl ?e"
    using assms(4,5) by (simp add: validateResponse_def)
  note st = step_body_invalid[OF assms(1,2,3) v]
  have rq: "\<forall>evs. (\<forall>raw env. Submit raw env \<notin> set evs) \<longrightarrow>
             requests (run evs (throw_in i ?e s)) = requests s"
    using idle_no_requests[OF st(3)] by simp
  show ?thesis
    using v rq assms(2) unfolding st(1)
    by (simp add: classify_non_json) (simp add: non_json_prefix_def)
qed

theorem non_json_reported_witness:
  "wf html_pending \<and> 0 < length (tasks html_pending)
   \<and> stage (tasks html_pending ! 0) = AwaitBody UserInfo 1 html_page
   \<and> \<not> str_includes ''text/html; charset=utf-8'' ''application/json''
   \<and> errorMessage (step (BodySettles 0) html_pending) = invalid_response_message
   \<and> requests (step (BodySettles 0) html_pending)
        = [\<lparr> url = ''https://codeforces.com/api/user.info?handles=tourist'', signal = 1 \<rparr>]"
proof -
  have w: "wf html_pending" unfolding html_pending_def by (rule wf_reach)
  have l: "0 < length (tasks html_pending)"
    and st: "stage (tasks html_pending ! 0) = AwaitBody UserInfo 1 html_page"
    and rq: "requests html_pending
             = [\<lparr> url = ''https://codeforces.com/api/user.info?handles=tourist'', signal = 1 \<rparr>]"
    by (simp_all add: html_pending_def example_defs model_defs)
  have ct: "\<not> str_includes (case content_type html_page of None \<Rightarrow> [] | Some h \<Rightarrow> h) ''application/json''"
    and tb: "text_body html_page = Inr html_body"
    by (simp_all add: html_page_def)
  from non_json_reported[OF w l st ct tb] w l st ct rq
  show ?thesis by (simp add: html_page_def)
qed

text \<open>
  The reported message does not contain the first 50 characters of the body.
\<close>

theorem non_json_counterexample:
  "errorMessage (step (BodySettles 0) html_pending) = invalid_response_message
   \<and> take 50 html_body = ''<html><body>503 Service Unavailable</body></html>''
   \<and> \<not> str_includes (errorMessage (step (BodySettles 0) html_pending)) (take 50 html_body)"
  by (simp add: example_defs model_defs)

text \<open>
  C5, as amended. When the user-info call has succeeded and the JSON payload of
  the rating call has a status other than \<^verbatim>\<open>OK\<close>: a comment that is not empty and
  does not contain the text \<^verbatim>\<open>non-JSON\<close> is reported verbatim; the fallback
  \<^verbatim>\<open>Unknown API error\<close> is reported when the comment is absent or empty; the
  profile stays reported; and the submission-history call is never issued.
\<close>

theorem rating_api_error:
  assumes "wf s" and "i < length (tasks s)"
    and "stage (tasks s ! i) = AwaitBody UserRating c r"
    and "str_includes (case content_type r of None \<Rightarrow> [] | Some h \<Rightarrow> h) ''application/json''"
    and "json_body r = Inr d"
    and "status d \<noteq> Some ''OK''"
  shows "(\<forall>m. comment d = Some m \<and> m \<noteq> [] \<and> \<not> str_includes m ''non-JSON'' \<longrightarrow>
            errorMessage (step (BodySettles i) s) = m)
       \<and> (comment d = None \<or> comment d = Some [] \<longrightarrow>
            errorMessage (step (BodySettles i) s) = ''Unknown API error'')
       \<and> showError (step (BodySettles i) s)
       \<and> \<not> loader (step (BodySettles i) s)
       \<and> userInfo (step (BodySettles i) s) = userInfo s
       \<and> requests (step (BodySettles i) s) = requests s
       \<and> (\<forall>evs. (\<forall>raw env. Submit raw env \<notin> set evs) \<longrightarrow>
             requests (run evs (step (BodySettles i) s)) = requests s)"
proof -
  let ?m = "case comment d of None \<Rightarrow> ''Unknown API error''
            | Some c \<Rightarrow> if c = [] then ''Unknown API error'' else c"
  have v: "validateResponse r = Inl (Error ?m)"
    using assms(4,5,6) by (simp add: validateResponse_def)
  note st = step_body_invalid[OF assms(1,2,3) v]
  have rq: "\<forall>evs. (\<forall>raw env. Submit raw env \<notin> set evs) \<longrightarrow>
             requests (run evs (throw_in i (Error ?m) s)) = requests s"
    using idle_no_requests[OF st(3)] by simp
  have fb: "classify (Error ''Unknown API error'') = ''Unknown API error''"
    by (simp add: classify_def Error_def)
  have cm: "m \<noteq> [] \<and> \<not> str_includes m ''non-JSON'' \<longrightarrow> classify (Error m) = m" for m
    by (simp add: classify_def Error_def)
  show ?thesis
    using rq fb cm unfolding st(1) by auto
qed

theorem rating_api_error_witness:
  "wf (rating_failure_pending (Some ''handle: User with handle tourist not found''))
   \<and> stage (tasks (rating_failure_pending (Some ''handle: User with handle tourist not found'')) ! 0)
        = AwaitBody UserRating 1 (api_failure (Some ''handle: User with handle tourist not found''))
   \<and> \<not> str_includes ''handle: User with handle tourist not found'' ''non-JSON''
   \<and> errorMessage (step (BodySettles 0)
         (rating_failure_pending (Some ''handle: User with handle tourist not found'')))
        = ''handle: User with handle tourist not found''
   \<and> userInfo (step (BodySettles 0)
         (rating_failure_pending (Some ''handle: User with handle tourist not found''))) = Val 7
   \<and> requests (step (BodySettles 0)
         (rating_failure_pending (Some ''handle: User with handle tourist not found'')))
        = [\<lparr> url = ''https://codeforces.com/api/user.info?handles=tourist'', signal = 1 \<rparr>,
           \<lparr> url = ''https://codeforces.com/api/user.rating?handle=tourist'', signal = 1 \<rparr>]"
proof -
  let ?c = "''handle: User with handle tourist not found''"
  let ?s = "rating_failure_pending (Some ?c)"
  have w: "wf ?s" unfolding rating_failure_pending_def by (rule wf_reach)
  have l: "0 < length (tasks ?s)"
    and st: "stage (tasks ?s ! 0) = AwaitBody UserRating 1 (api_failure (Some ?c))"
    and ui: "userInfo ?s = Val 7"
    and rq: "requests ?s
        = [\<lparr> url = ''https://codeforces.com/api/user.info?handles=tourist'', signal = 1 \<rparr>,
           \<lparr> url = ''https://codeforces.com/api/user.rating?handle=tourist'', signal = 1 \<rparr>]"
    by (simp_all add: rating_failure_pending_def example_defs model_defs)
  have ct: "str_includes (case content_type (api_failure (Some ?c)) of None \<Rightarrow> [] | Some h \<Rightarrow> h)
              ''application/json''"
    and jb: "json_body (api_failure (Some ?c))
             = Inr \<lparr> status = Some ''FAILED'', comment = Some ?c, result = None \<rparr>"
    by (simp_all add: api_failure_def)
  have ns: "status \<lparr> status = Some ''FAILED'', comment = Some ?c, result = (None :: nat list option) \<rparr>
            \<noteq> Some ''OK''"
    by simp
  have ni: "\<not> str_includes ?c ''non-JSON''" by simp
  from rating_api_error[OF w l st ct jb ns] w st ui rq ni
  show ?thesis by simp
qed

text \<open>
  An empty comment is replaced by the fallback, and a comment containing
  \<^verbatim>\<open>non-JSON\<close> by the diagnostic for responses that are not JSON.
\<close>

theorem rating_api_error_counterexample:
  "errorMessage (step (BodySettles 0) (rating_failure_pending (Some []))) = ''Unknown API error''
   \<and> errorMessage (step (BodySettles 0) (rating_failure_pending (Some ''non-JSON handle'')))
        = invalid_response_message
   \<and> invalid_response_message \<noteq> ''non-JSON handle''"
  by (simp add: example_defs model_defs)

text \<open>
  C6. A sequence is still waiting for a response when the 10 seconds of its
  timer have passed. When the timer fires, the controller on whose signal the
  sequence waits is aborted, the sequence ends with the cancellation error
  \<^verbatim>\<open>Request cancelled\<close>, which is shown, the slots and the calls made are as
  before, and a response or a body that settles for it afterwards changes
  nothing. The timer is the one \<^verbatim>\<open>handleSearch\<close> sets, 10000 milliseconds after
  the submission.
\<close>

theorem timeout_cancels:
  fixes s :: "'a state"
  assumes "wf s" and "i < length (tasks s)" and "awaits (stage (tasks s ! i)) = Some c"
    and "timeoutId (tasks s ! i) = Some tid"
    and "map_of (timers s) tid = Some t" and "action t = AbortCurrent" and "due t \<le> now s"
  defines "s' \<equiv> step (Fire tid) s"
  shows "controllers s' ! c
       \<and> stage (tasks s' ! i) = Done (Failed AbortError)
       \<and> errorMessage s' = ''Request cancelled'' \<and> showError s' \<and> \<not> loader s'
       \<and> userInfo s' = userInfo s \<and> userRatings s' = userRatings s
       \<and> userProblems s' = userProblems s
       \<and> requests s' = requests s
       \<and> (\<forall>r. step (FetchSettles i r) s' = s')
       \<and> step (BodySettles i) s' = s'
       \<and> (\<forall>(s0 :: 'a state) raw base. base \<noteq> [] \<and> startsWith base ''http'' \<longrightarrow>
             timers (handleSearch raw (Some base) s0)
               = timers s0 @ [(next_timer s0, \<lparr> due = now s0 + 10000, action = AbortCurrent \<rparr>)]
             \<and> timeoutId (last (tasks (handleSearch raw (Some base) s0))) = Some (next_timer s0))"
proof -
  from wf_await[OF assms(1,2,3)] have c: "c = current s" "c < length (controllers s)" by blast+
  note f = step_fire_abort_busy[OF assms(1,2,3,5,6,7)]
  have eq: "s' = throw_in i AbortError (run_timer AbortCurrent (clearTimeout tid s))"
    unfolding s'_def by (rule f(1))
  have w: "wf s'" unfolding eq by (rule f(2))
  have len: "i < length (tasks s')" using assms(2) by (simp add: eq clearTimeout_def abort_current_def)
  have st: "stage (tasks s' ! i) = Done (Failed AbortError)"
    using assms(2) by (simp add: eq clearTimeout_def abort_current_def)
  have late: "(\<forall>r. step (FetchSettles i r) s' = s') \<and> step (BodySettles i) s' = s'"
    using done_fetch_noop[OF w len st] done_body_noop[OF w len st] by simp
  have rest: "controllers s' ! c
       \<and> errorMessage s' = ''Request cancelled'' \<and> showError s' \<and> \<not> loader s'
       \<and> userInfo s' = userInfo s \<and> userRatings s' = userRatings s
       \<and> userProblems s' = userProblems s
       \<and> requests s' = requests s"
    using c by (simp add: eq clearTimeout_def abort_current_def classify_def AbortError_def)
  have sched: "\<forall>(s0 :: 'a state) raw base. base \<noteq> [] \<and> startsWith base ''http'' \<longrightarrow>
             timers (handleSearch raw (Some base) s0)
               = timers s0 @ [(next_timer s0, \<lparr> due = now s0 + 10000, action = AbortCurrent \<rparr>)]
             \<and> timeoutId (last (tasks (handleSearch raw (Some base) s0))) = Some (next_timer s0)"
    by (simp add: handleSearch_valid)
  show ?thesis using st late rest sched by blast
qed

theorem timeout_cancels_witness:
  "wf timed_out_pending \<and> 0 < length (tasks timed_out_pending)
   \<and> awaits (stage (tasks timed_out_pending ! 0)) = Some 1
   \<and> timeoutId (tasks timed_out_pending ! 0) = Some 0
   \<and> map_of (timers timed_out_pending) 0 = Some \<lparr> due = 10000, action = AbortCurrent \<rparr>
   \<and> now timed_out_pending = 10000
   \<and> controllers (step (Fire 0) timed_out_pending) ! 1
   \<and> stage (tasks (step (Fire 0) timed_out_pending) ! 0) = Done (Failed AbortError)
   \<and> errorMessage (step (Fire 0) timed_out_pending) = ''Request cancelled''
   \<and> showError (step (Fire 0) timed_out_pending)
   \<and> step (FetchSettles 0 (Inr (json_ok [7]))) (step (Fire 0) timed_out_pending)
        = step (Fire 0) timed_out_pending"
proof -
  have w: "wf timed_out_pending" unfolding timed_out_pending_def by (rule wf_reach)
  have l: "0 < length (tasks timed_out_pending)"
    and a: "awaits (stage (tasks timed_out_pending ! 0)) = Some 1"
    and ti: "timeoutId (tasks timed_out_pending ! 0) = Some 0"
    and m: "map_of (timers timed_out_pending) 0 = Some \<lparr> due = 10000, action = AbortCurrent \<rparr>"
    and n: "now timed_out_pending = 10000"
    by (simp_all add: timed_out_pending_def example_defs model_defs)
  have ac: "action \<lparr> due = 10000, action = AbortCurrent \<rparr> = AbortCurrent"
    and du: "due \<lparr> due = 10000, action = AbortCurrent \<rparr> \<le> now timed_out_pending"
    by (simp_all add: n)
  from timeout_cancels[OF w l a ti m ac du] w l a ti m n
  show ?thesis by simp
qed

text \<open>
  C7. The timeout timer is cleared on the success path only (line 77). Here the
  first submission fails at once with a network error and its timer stays
  pending; a second submission is made 5 seconds later; when the first timer
  fires at 10 seconds, it aborts the controller of the second submission, whose
  own timer is due at 15 seconds, and the second sequence is cancelled.
\<close>

theorem stale_timer_cancels_later_submission:
  "stage (tasks stale_timer ! 0) = Done (Failed network_error)
   \<and> timeoutId (tasks stale_timer ! 0) = Some 0
   \<and> map_of (timers stale_timer) 0 = Some \<lparr> due = 10000, action = AbortCurrent \<rparr>
   \<and> stage (tasks stale_timer ! 1) = AwaitFetch UserInfo 2
   \<and> timeoutId (tasks stale_timer ! 1) = Some 2
   \<and> map_of (timers stale_timer) 2 = Some \<lparr> due = 15000, action = AbortCurrent \<rparr>
   \<and> now stale_timer = 10000
   \<and> stage (tasks (step (Fire 0) stale_timer) ! 1) = Done (Failed AbortError)
   \<and> showError (step (Fire 0) stale_timer)
   \<and> errorMessage (step (Fire 0) stale_timer) = ''Request cancelled''"
  by (simp add: stale_timer_def example_defs model_defs)

text \<open>
  C8, as amended. The \<^verbatim>\<open>catch\<close> block shows the error and schedules a timer 10
  seconds ahead; that timer, when it fires, hides whatever error is shown then,
  and it cannot fire before its time. A submission with a valid base URL, made
  while no sequence is in flight, sets the loading flag and hides the error.
  No submission cancels a pending timer: the timers pending before it are
  pending after it.
\<close>

theorem error_display_timer:
  fixes s :: "'a state"
  assumes "wf s"
  shows "timers (catch_block e s)
           = timers s @ [(next_timer s, \<lparr> due = now s + 10000, action = HideError \<rparr>)]
       \<and> showError (catch_block e s)
       \<and> (\<forall>tid t. map_of (timers s) tid = Some t \<and> action t = HideError \<and> due t \<le> now s \<longrightarrow>
             \<not> showError (step (Fire tid) s))
       \<and> (\<forall>tid t. map_of (timers s) tid = Some t \<and> now s < due t \<longrightarrow> step (Fire tid) s = s)
       \<and> (\<forall>raw env. set (timers s) \<subseteq> set (timers (step (Submit raw env) s)))
       \<and> (\<forall>raw base. idle s \<and> base \<noteq> [] \<and> startsWith base ''http'' \<longrightarrow>
             loader (step (Submit raw (Some base)) s)
             \<and> \<not> showError (step (Submit raw (Some base)) s))"
proof -
  have a: "timers (catch_block e s)
           = timers s @ [(next_timer s, \<lparr> due = now s + 10000, action = HideError \<rparr>)]
       \<and> showError (catch_block e s)"
    by (simp add: catch_block_def setTimeout_def)
  have b: "\<forall>tid t. map_of (timers s) tid = Some t \<and> action t = HideError \<and> due t \<le> now s \<longrightarrow>
             \<not> showError (step (Fire tid) s)"
    using step_fire_hide(1)[OF assms] by simp
  have c: "\<forall>tid t. map_of (timers s) tid = Some t \<and> now s < due t \<longrightarrow> step (Fire tid) s = s"
    using step_fire_not_due[OF assms] by blast
  have d: "\<forall>raw env. set (timers s) \<subseteq> set (timers (step (Submit raw env) s))"
    using step_submit_timers_mono[OF assms] by blast
  have e: "\<forall>raw base. idle s \<and> base \<noteq> [] \<and> startsWith base ''http'' \<longrightarrow>
             loader (step (Submit raw (Some base)) s)
             \<and> \<not> showError (step (Submit raw (Some base)) s)"
    by (simp add: step_submit_idle handleSearch_valid)
  show ?thesis using a b c d e by blast
qed

theorem error_display_timer_witness:
  "wf error_due
   \<and> map_of (timers error_due) 0 = Some \<lparr> due = 10000, action = HideError \<rparr>
   \<and> now error_due = 10000 \<and> showError error_due
   \<and> \<not> showError (step (Fire 0) error_due)"
proof -
  have w: "wf error_due" unfolding error_due_def by (rule wf_reach)
  have m: "map_of (timers error_due) 0 = Some \<lparr> due = 10000, action = HideError \<rparr>"
    and n: "now error_due = 10000" and sh: "showError error_due"
    by (simp_all add: error_due_def example_defs model_defs)
  from error_display_timer[OF w, of network_error] w m n sh
  show ?thesis by simp
qed

text \<open>
  The error of the second submission, shown at 5 seconds, is hidden at 10
  seconds by the timer of the first, while its own timer is due at 15 seconds.
\<close>

theorem error_display_timer_counterexample:
  "showError two_errors
   \<and> errorMessage two_errors = ''API endpoint misconfigured. Check environment variables.''
   \<and> timers two_errors = [(0, \<lparr> due = 10000, action = HideError \<rparr>),
                           (1, \<lparr> due = 15000, action = HideError \<rparr>)]
   \<and> now two_errors = 10000
   \<and> \<not> showError (step (Fire 0) two_errors)
   \<and> timers (step (Fire 0) two_errors) = [(1, \<lparr> due = 15000, action = HideError \<rparr>)]"
  by (simp add: two_errors_def example_defs model_defs)

text \<open>
  C9. The callback of the timeout throws \<^verbatim>\<open>Request timed out (10 seconds)\<close> in a
  task of its own, outside the \<^verbatim>\<open>try\<close> block: when the timer of a waiting
  sequence fires, that error is caught by nothing, and the error reported is
  the cancellation.
\<close>

theorem timeout_error_escapes:
  "uncaught timed_out_pending = []
   \<and> uncaught (step (Fire 0) timed_out_pending) = [Error ''Request timed out (10 seconds)'']
   \<and> errorMessage (step (Fire 0) timed_out_pending) = ''Request cancelled''"
  by (simp add: timed_out_pending_def example_defs model_defs)

text \<open>
  C10. When a call fails after an earlier call of the same sequence has
  succeeded, the slots already set keep their values: the \<^verbatim>\<open>catch\<close> block clears
  the loading flag and sets the error message and its visibility, and writes
  none of the three slots. Here a fetch of invocation \<open>i\<close> is rejected, or the
  validator throws on its response.
\<close>

theorem failure_keeps_slots:
  assumes "wf s" and "i < length (tasks s)"
    and "(\<exists>k c. stage (tasks s ! i) = AwaitFetch k c \<and> ev = FetchSettles i (Inl e))
       \<or> (\<exists>k c r. stage (tasks s ! i) = AwaitBody k c r \<and> validateResponse r = Inl e
                   \<and> ev = BodySettles i)"
  shows "userInfo (step ev s) = userInfo s
       \<and> userRatings (step ev s) = userRatings s
       \<and> userProblems (step ev s) = userProblems s
       \<and> \<not> loader (step ev s) \<and> showError (step ev s)
       \<and> errorMessage (step ev s) = classify e
       \<and> stage (tasks (step ev s) ! i) = Done (Failed e)
       \<and> userInfo (catch_block e s) = userInfo s
       \<and> userRatings (catch_block e s) = userRatings s
       \<and> userProblems (catch_block e s) = userProblems s"
proof -
  have "step ev s = throw_in i e s"
    using assms(3) step_fetch_rejected(1)[OF assms(1,2)] step_body_invalid(1)[OF assms(1,2)]
    by blast
  then show ?thesis using assms(2) by (simp add: catch_block_def setTimeout_def)
qed

theorem failure_keeps_slots_witness:
  "wf profile_reported \<and> 0 < length (tasks profile_reported)
   \<and> stage (tasks profile_reported ! 0) = AwaitFetch UserRating 1
   \<and> userInfo profile_reported = Val 7
   \<and> userInfo (step (FetchSettles 0 (Inl network_error)) profile_reported) = Val 7
   \<and> showError (step (FetchSettles 0 (Inl network_error)) profile_reported)
   \<and> errorMessage (step (FetchSettles 0 (Inl network_error)) profile_reported) = ''Failed to fetch''"
proof -
  have w: "wf profile_reported" unfolding profile_reported_def by (rule wf_reach)
  have l: "0 < length (tasks profile_reported)"
    and st: "stage (tasks profile_reported ! 0) = AwaitFetch UserRating 1"
    and u: "userInfo profile_reported = Val 7"
    by (simp_all add: profile_reported_def example_defs model_defs)
  have c: "classify network_error = ''Failed to fetch''"
    by (simp add: classify_def network_error_def)
  from failure_keeps_slots[OF w l, of "FetchSettles 0 (Inl network_error)" network_error] st u c w l
  show ?thesis by simp
qed

end
